theory Spec2Isabelle
  imports Main "HOL-Library.Sublist"
begin

section \<open>Python values\<close>

text \<open>
  The story engine of \<^verbatim>\<open>app.py\<close> is dynamically typed: a story definition is whatever
  \<^verbatim>\<open>json.loads\<close> returned or a Python literal, and \<^verbatim>\<open>load_tree\<close> stores the fields
  of a node without looking at their types. Values are therefore modelled by one datatype.
  A \<^verbatim>\<open>str\<close> is the list of the bytes of its UTF-8 encoding; a \<^verbatim>\<open>dict\<close> is the list of
  its items in insertion order (Python 3.7 and later keep it), its keys pairwise distinct.
  Dictionary keys are strings or integers; numbers are integers (no claim reads a float).
\<close>

datatype pykey = KStr string | KInt int

datatype pyval =
    PNone
  | PBool bool
  | PInt int
  | PStr string
  | PList "pyval list"
  | PDict "(pykey \<times> pyval) list"

datatype py_error = AttributeError | KeyError | TypeError | IndexError | ValueError

text \<open>
  A call that mutates an object and may raise: \<open>Ok s\<close> is the state after a normal return,
  \<open>Raised e s\<close> the state that the mutations made before the exception \<open>e\<close> left behind.
\<close>

datatype 's outcome = Ok 's | Raised py_error 's

fun state_of :: "'s outcome \<Rightarrow> 's" where
  "state_of (Ok s) = s"
| "state_of (Raised e s) = s"

subsection \<open>Dictionaries\<close>

text \<open>\<^verbatim>\<open>d[k] = v\<close>: an existing key keeps its position, a new key goes to the end.\<close>

fun dict_set :: "('k \<times> 'v) list \<Rightarrow> 'k \<Rightarrow> 'v \<Rightarrow> ('k \<times> 'v) list" where
  "dict_set [] k v = [(k, v)]"
| "dict_set ((k', v') # d) k v =
     (if k' = k then (k, v) # d else (k', v') # dict_set d k v)"

text \<open>\<^verbatim>\<open>d.get(k, default)\<close>\<close>

definition dict_get :: "('k \<times> 'v) list \<Rightarrow> 'k \<Rightarrow> 'v \<Rightarrow> 'v" where
  "dict_get d k dflt = (case map_of d k of None \<Rightarrow> dflt | Some v \<Rightarrow> v)"

text \<open>\<^verbatim>\<open>k in d\<close>\<close>

definition dict_has :: "('k \<times> 'v) list \<Rightarrow> 'k \<Rightarrow> bool" where
  "dict_has d k = (map_of d k \<noteq> None)"

definition keys :: "('k \<times> 'v) list \<Rightarrow> 'k list" where
  "keys d = map fst d"

text \<open>Truth value of an object, as \<^verbatim>\<open>if x:\<close> tests it.\<close>

fun truthy :: "pyval \<Rightarrow> bool" where
  "truthy PNone = False"
| "truthy (PBool b) = b"
| "truthy (PInt i) = (i \<noteq> 0)"
| "truthy (PStr s) = (s \<noteq> [])"
| "truthy (PList xs) = (xs \<noteq> [])"
| "truthy (PDict d) = (d \<noteq> [])"

subsection \<open>\<^verbatim>\<open>str(k)\<close> of a key\<close>

definition digit :: "nat \<Rightarrow> char" where
  "digit d = char_of (48 + d)"

function str_nat :: "nat \<Rightarrow> string" where
  "str_nat n = (if n < 10 then [digit n] else str_nat (n div 10) @ [digit (n mod 10)])"
  by pat_completeness auto
termination
  by (relation "measure id") auto

declare str_nat.simps [simp del]

definition str_int :: "int \<Rightarrow> string" where
  "str_int i = (if i < 0 then CHR ''-'' # str_nat (nat (- i)) else str_nat (nat i))"

fun str :: "pykey \<Rightarrow> string" where
  "str (KStr s) = s"
| "str (KInt i) = str_int i"

section \<open>The story graph\<close>

text \<open>
  \<^verbatim>\<open>class StoryNode\<close>. The dataclass annotates its fields but Python does not check them,
  and \<^verbatim>\<open>load_tree\<close> fills them with whatever the definition holds. The fields \<^verbatim>\<open>id\<close>
  and \<^verbatim>\<open>text\<close> are \<open>node_id\<close> and \<open>node_text\<close> here.
\<close>

record StoryNode =
  node_id :: string
  node_text :: pyval
  choices :: pyval
  metadata :: pyval
  image_prompt :: pyval
  mood :: pyval

text \<open>
  \<^verbatim>\<open>class EnhancedStoryAgent\<close>: \<^verbatim>\<open>story_nodes\<close> is a dict from id to node,
  \<^verbatim>\<open>root_id\<close> is \<^verbatim>\<open>None\<close> or a string. (The attribute \<^verbatim>\<open>achievements\<close> of the agent is
  set to an empty dict by the constructor and never read or written again.)
\<close>

record EnhancedStoryAgent =
  story_nodes :: "(string \<times> StoryNode) list"
  root_id :: "string option"
  agent_achievements :: "(string \<times> bool) list"

text \<open>
  The constructor call \<^verbatim>\<open>StoryNode(id=str(nid), text=node.get("text", ""), ...)\<close> of
  \<^verbatim>\<open>load_tree\<close>: \<^verbatim>\<open>node.get\<close> raises \<^verbatim>\<open>AttributeError\<close> unless \<^verbatim>\<open>node\<close> is a dict.
\<close>

fun make_node :: "pykey \<Rightarrow> pyval \<Rightarrow> py_error + StoryNode" where
  "make_node nid (PDict node) = Inr \<lparr>
      node_id = str nid,
      node_text = dict_get node (KStr ''text'') (PStr ''''),
      choices = dict_get node (KStr ''choices'') (PDict []),
      metadata = dict_get node (KStr ''metadata'') (PDict []),
      image_prompt = dict_get node (KStr ''image_prompt'') (PStr ''''),
      mood = dict_get node (KStr ''mood'') (PStr ''neutral'') \<rparr>"
| "make_node nid node = Inl AttributeError"

text \<open>
  The loop \<^verbatim>\<open>for nid, node in tree.items()\<close> of \<^verbatim>\<open>load_tree\<close>, on the dict
  \<^verbatim>\<open>self.story_nodes\<close> built so far. An exception leaves the loop with the nodes stored
  until then.
\<close>

fun load_loop :: "(string \<times> StoryNode) list \<Rightarrow> (pykey \<times> pyval) list
    \<Rightarrow> (string \<times> StoryNode) list outcome" where
  "load_loop sn [] = Ok sn"
| "load_loop sn ((nid, node) # rest) =
     (case make_node nid node of
        Inl e \<Rightarrow> Raised e sn
      | Inr node_obj \<Rightarrow> load_loop (dict_set sn (str nid) node_obj) rest)"

text \<open>
  \<^verbatim>\<open>load_tree\<close>. The first statement empties \<^verbatim>\<open>self.story_nodes\<close>; \<^verbatim>\<open>tree.items()\<close>
  raises \<^verbatim>\<open>AttributeError\<close> when \<^verbatim>\<open>tree\<close> is not a dict; the last statement is\<^verbatim>\<open>
  self.root_id = "start" if "start" in tree
                 else next(iter(self.story_nodes)) if self.story_nodes else None\<close>
\<close>

fun load_tree :: "EnhancedStoryAgent \<Rightarrow> pyval \<Rightarrow> EnhancedStoryAgent outcome" where
  "load_tree a (PDict tree) =
     (case load_loop [] tree of
        Raised e sn \<Rightarrow> Raised e (a\<lparr>story_nodes := sn\<rparr>)
      | Ok sn \<Rightarrow> Ok (a\<lparr>story_nodes := sn,
                       root_id := (if dict_has tree (KStr ''start'') then Some ''start''
                                   else (case sn of [] \<Rightarrow> None | (k, n) # rest \<Rightarrow> Some k))\<rparr>))"
| "load_tree a tree = Raised AttributeError (a\<lparr>story_nodes := []\<rparr>)"

text \<open>\<^verbatim>\<open>__init__\<close>\<close>

definition new_agent :: "pyval \<Rightarrow> EnhancedStoryAgent outcome" where
  "new_agent story_tree =
     (let a = \<lparr>story_nodes = [], root_id = None, agent_achievements = []\<rparr>
      in if truthy story_tree then load_tree a story_tree else Ok a)"

text \<open>
  \<^verbatim>\<open>get_node\<close>: \<^verbatim>\<open>self.story_nodes[node_id]\<close>. All keys of \<^verbatim>\<open>story_nodes\<close> are strings,
  so a lookup with another hashable value raises \<^verbatim>\<open>KeyError\<close>, and one with a list or a
  dict raises \<^verbatim>\<open>TypeError\<close> (unhashable).
\<close>

fun get_node :: "EnhancedStoryAgent \<Rightarrow> pyval \<Rightarrow> py_error + StoryNode" where
  "get_node a (PStr k) =
     (case map_of (story_nodes a) k of None \<Rightarrow> Inl KeyError | Some n \<Rightarrow> Inr n)"
| "get_node a (PList xs) = Inl TypeError"
| "get_node a (PDict d) = Inl TypeError"
| "get_node a other = Inl KeyError"

text \<open>
  \<^verbatim>\<open>add_node\<close>, for the id \<open>nid\<close> that \<^verbatim>\<open>str(uuid.uuid4())\<close> returned in the call:
  \<^verbatim>\<open>choices or {}\<close> replaces a false value by an empty dict, the metadata get the
  default of the dataclass.
\<close>

definition add_node :: "EnhancedStoryAgent \<Rightarrow> string \<Rightarrow> pyval \<Rightarrow> pyval \<Rightarrow> pyval \<Rightarrow> pyval
    \<Rightarrow> EnhancedStoryAgent \<times> string" where
  "add_node a nid text_arg choices_arg image_prompt_arg mood_arg =
     (a\<lparr>story_nodes := dict_set (story_nodes a) nid
          \<lparr>node_id = nid,
           node_text = text_arg,
           choices = (if truthy choices_arg then choices_arg else PDict []),
           metadata = PDict [],
           image_prompt = image_prompt_arg,
           mood = mood_arg\<rparr>\<rparr>,
      nid)"

text \<open>
  \<^verbatim>\<open>link_choice\<close>: \<^verbatim>\<open>self.story_nodes[from_id].choices[choice_text] = to_id\<close>. The
  subscript assignment needs a dict; on any other value of \<^verbatim>\<open>choices\<close> it raises
  \<^verbatim>\<open>TypeError\<close>. The dict is updated in place; nodes are assumed not to share one
  \<^verbatim>\<open>choices\<close> object.
\<close>

definition link_choice :: "EnhancedStoryAgent \<Rightarrow> string \<Rightarrow> string \<Rightarrow> pyval
    \<Rightarrow> EnhancedStoryAgent outcome" where
  "link_choice a from_id choice_text to_id =
     (case map_of (story_nodes a) from_id of
        None \<Rightarrow> Raised KeyError a
      | Some n \<Rightarrow>
          (case choices n of
             PDict d \<Rightarrow> Ok (a\<lparr>story_nodes :=
                 dict_set (story_nodes a) from_id
                   (n\<lparr>choices := PDict (dict_set d (KStr choice_text) to_id)\<rparr>)\<rparr>)
           | other \<Rightarrow> Raised TypeError a))"

text \<open>\<^verbatim>\<open>export_tree\<close>: the loop \<^verbatim>\<open>out[nid] = {...}\<close> over \<^verbatim>\<open>self.story_nodes.items()\<close>.\<close>

definition export_entry :: "StoryNode \<Rightarrow> pyval" where
  "export_entry node = PDict
     [(KStr ''text'', node_text node),
      (KStr ''choices'', choices node),
      (KStr ''metadata'', metadata node),
      (KStr ''image_prompt'', image_prompt node),
      (KStr ''mood'', mood node)]"

fun export_loop :: "(pykey \<times> pyval) list \<Rightarrow> (string \<times> StoryNode) list
    \<Rightarrow> (pykey \<times> pyval) list" where
  "export_loop out [] = out"
| "export_loop out ((nid, node) # rest) =
     export_loop (dict_set out (KStr nid) (export_entry node)) rest"

definition export_tree :: "EnhancedStoryAgent \<Rightarrow> pyval" where
  "export_tree a = PDict (export_loop [] (story_nodes a))"

section \<open>The session\<close>

text \<open>
  The traversal state that the page keeps in \<^verbatim>\<open>st.session_state\<close>: \<^verbatim>\<open>progress\<close>,
  \<^verbatim>\<open>current_node\<close>, \<^verbatim>\<open>story_text\<close>, \<^verbatim>\<open>achievements\<close> and \<^verbatim>\<open>choices_made\<close>
  (\<^verbatim>\<open>start_time\<close> is a wall-clock reading that only the statistics display uses). The ids
  in \<^verbatim>\<open>progress\<close> come from \<^verbatim>\<open>root_id\<close> and from the values of \<^verbatim>\<open>choices\<close>
  dicts, so they are arbitrary values.
\<close>

record session =
  progress :: "pyval list"
  current_node :: pyval
  story_text :: "pyval list"
  achievements :: "string set"
  choices_made :: int

text \<open>\<^verbatim>\<open>agent.root_id\<close> as a value: \<^verbatim>\<open>None\<close> or a string.\<close>

fun py_of_root :: "string option \<Rightarrow> pyval" where
  "py_of_root None = PNone"
| "py_of_root (Some k) = PStr k"

text \<open>
  Session initialisation (\<^verbatim>\<open>if "agent" not in st.session_state:\<close>), once the agent is
  built. \<^verbatim>\<open>agent.get_node(agent.root_id)\<close> raises when the root is absent; the page then
  has no complete session.
\<close>

definition init_session :: "EnhancedStoryAgent \<Rightarrow> py_error + session" where
  "init_session a =
     (case get_node a (py_of_root (root_id a)) of
        Inl e \<Rightarrow> Inl e
      | Inr n \<Rightarrow> Inr \<lparr>progress = [py_of_root (root_id a)],
                       current_node = py_of_root (root_id a),
                       story_text = [node_text n],
                       achievements = {},
                       choices_made = 0\<rparr>)"

text \<open>What the page shows after a button: \<^verbatim>\<open>st.info\<close> or \<^verbatim>\<open>st.warning\<close> with a message.\<close>

datatype notice = st_info string | st_warning string

text \<open>
  The two messages of the undo button. Each starts with an emoji, given here by the bytes
  of its encoding (U+21A9 U+FE0F and U+1F4DD; U+2014 is the dash).
\<close>

definition undid_message :: string where
  "undid_message =
     [CHR 0xE2, CHR 0x86, CHR 0xA9, CHR 0xEF, CHR 0xB8, CHR 0x8F] @ '' Undid last choice.''"

definition nothing_to_undo_message :: string where
  "nothing_to_undo_message =
     [CHR 0xF0, CHR 0x9F, CHR 0x93, CHR 0x9D] @ '' Nothing to undo ''
     @ [CHR 0xE2, CHR 0x80, CHR 0x94] @ '' you're at the beginning.''"

text \<open>The handler of the button "Undo Last Choice".\<close>

definition undo :: "session \<Rightarrow> session \<times> notice" where
  "undo s =
     (if length (progress s) > 1 then
        (let p = butlast (progress s)
         in (s\<lparr>progress := p,
                current_node := last p,
                story_text := butlast (story_text s),
                choices_made := choices_made s - 1\<rparr>,
             st_info undid_message))
      else
        (s, st_warning nothing_to_undo_message))"

text \<open>
  The body of the handler of a choice button, for the target \<^verbatim>\<open>child_id\<close> of that
  button:\<^verbatim>\<open>
  st.session_state.progress.append(child_id)
  st.session_state.current_node = child_id
  st.session_state.story_text.append(agent.get_node(child_id).text)
  st.session_state.choices_made += 1\<close>
\<close>

definition on_choice :: "EnhancedStoryAgent \<Rightarrow> session \<Rightarrow> pyval \<Rightarrow> session outcome" where
  "on_choice a s child_id =
     (let s1 = s\<lparr>progress := progress s @ [child_id], current_node := child_id\<rparr>
      in case get_node a child_id of
           Inl e \<Rightarrow> Raised e s1
         | Inr n \<Rightarrow> Ok (s1\<lparr>story_text := story_text s1 @ [node_text n],
                              choices_made := choices_made s1 + 1\<rparr>))"

text \<open>
  Pressing the button labelled \<open>label\<close>. The page first fetches the current node
  (\<^verbatim>\<open>agent.get_node(st.session_state.current_node)\<close>), then draws one button for every
  item of \<^verbatim>\<open>current_node.choices.items()\<close> if \<^verbatim>\<open>current_node.choices\<close> is true.
  \<open>None\<close> means that the page has no button with that label, so it cannot be pressed.
\<close>

definition press_choice :: "EnhancedStoryAgent \<Rightarrow> session \<Rightarrow> string \<Rightarrow> session outcome option" where
  "press_choice a s label =
     (case get_node a (current_node s) of
        Inl e \<Rightarrow> Some (Raised e s)
      | Inr node \<Rightarrow>
          (case choices node of
             PDict d \<Rightarrow>
               (case map_of d (KStr label) of
                  None \<Rightarrow> None
                | Some child_id \<Rightarrow> Some (on_choice a s child_id))
           | other \<Rightarrow> if truthy other then Some (Raised AttributeError s) else None))"

text \<open>
  The handler of the button "Restart Story": as the initialisation, on the session that
  exists. \<^verbatim>\<open>agent.get_node(agent.root_id)\<close> is reached after the first two assignments.
\<close>

definition restart :: "EnhancedStoryAgent \<Rightarrow> session \<Rightarrow> session outcome" where
  "restart a s =
     (let s1 = s\<lparr>progress := [py_of_root (root_id a)],
                  current_node := py_of_root (root_id a)\<rparr>
      in case get_node a (py_of_root (root_id a)) of
           Inl e \<Rightarrow> Raised e s1
         | Inr n \<Rightarrow> Ok (s1\<lparr>story_text := [node_text n],
                              achievements := {},
                              choices_made := 0\<rparr>))"

text \<open>
  The import of a parsed story file \<open>data\<close>:\<^verbatim>\<open>
  agent.load_tree(data)
  st.session_state.progress = [agent.root_id]
  st.session_state.current_node = agent.root_id
  st.session_state.story_text = [agent.get_node(agent.root_id).text]
  st.session_state.achievements = set()\<close>
  The handler catches every exception and shows it with \<^verbatim>\<open>st.error\<close>; the agent and
  the session keep what the statements before the exception did. The handler has no
  assignment to \<^verbatim>\<open>choices_made\<close>.
\<close>

definition import_tree :: "EnhancedStoryAgent \<Rightarrow> session \<Rightarrow> pyval
    \<Rightarrow> (EnhancedStoryAgent \<times> session) outcome" where
  "import_tree a s data =
     (case load_tree a data of
        Raised e a' \<Rightarrow> Raised e (a', s)
      | Ok a' \<Rightarrow>
          (let s1 = s\<lparr>progress := [py_of_root (root_id a')],
                       current_node := py_of_root (root_id a')\<rparr>
           in case get_node a' (py_of_root (root_id a')) of
                Inl e \<Rightarrow> Raised e (a', s1)
              | Inr n \<Rightarrow> Ok (a', s1\<lparr>story_text := [node_text n],
                                        achievements := {}\<rparr>)))"

text \<open>A sequence of button presses, all of which return normally.\<close>

datatype event = Choose string | Undo

fun run :: "EnhancedStoryAgent \<Rightarrow> session \<Rightarrow> event list \<Rightarrow> session option" where
  "run a s [] = Some s"
| "run a s (Choose label # es) =
     (case press_choice a s label of Some (Ok s') \<Rightarrow> run a s' es | _ \<Rightarrow> None)"
| "run a s (Undo # es) = run a (fst (undo s)) es"

section \<open>Achievement detection\<close>

text \<open>\<^verbatim>\<open>sub in s\<close> for two strings.\<close>

fun contains :: "'a list \<Rightarrow> 'a list \<Rightarrow> bool" where
  "contains sub [] = (sub = [])"
| "contains sub (c # cs) = (prefix sub (c # cs) \<or> contains sub cs)"

text \<open>
  \<^verbatim>\<open>s.split(sep)\<close>: the pieces between the occurrences of \<open>sep\<close>, found from the left
  without overlap; \<open>piece\<close> is the piece being read. An empty separator raises
  \<^verbatim>\<open>ValueError\<close>.
\<close>

function split_from :: "'a list \<Rightarrow> 'a list \<Rightarrow> 'a list \<Rightarrow> 'a list list" where
  "split_from sep piece [] = [piece]"
| "split_from sep piece (c # cs) =
     (if sep \<noteq> [] \<and> prefix sep (c # cs)
      then piece # split_from sep [] (drop (length sep) (c # cs))
      else split_from sep (piece @ [c]) cs)"
  by pat_completeness auto
termination
  by (relation "measure (\<lambda>(sep, piece, s). length s)") auto

definition py_split :: "'a list \<Rightarrow> 'a list \<Rightarrow> py_error + 'a list list" where
  "py_split s sep = (if sep = [] then Inl ValueError else Inr (split_from sep [] s))"

text \<open>\<^verbatim>\<open>xs[i]\<close> for \<open>i \<ge> 0\<close>.\<close>

definition py_index :: "'a list \<Rightarrow> nat \<Rightarrow> py_error + 'a" where
  "py_index xs i = (if i < length xs then Inr (xs ! i) else Inl IndexError)"

text \<open>
  The characters that \<^verbatim>\<open>str.strip()\<close> removes, each by its encoding: U+0009 to U+000D,
  U+001C to U+0020, U+0085, U+00A0, U+1680, U+2000 to U+200A, U+2028, U+2029, U+202F,
  U+205F and U+3000.
\<close>

definition whitespace :: "string list" where
  "whitespace =
     map (\<lambda>c. [c]) [CHR 0x09, CHR 0x0A, CHR 0x0B, CHR 0x0C, CHR 0x0D,
                     CHR 0x1C, CHR 0x1D, CHR 0x1E, CHR 0x1F, CHR 0x20]
     @ [[CHR 0xC2, CHR 0x85], [CHR 0xC2, CHR 0xA0], [CHR 0xE1, CHR 0x9A, CHR 0x80]]
     @ map (\<lambda>c. [CHR 0xE2, CHR 0x80, c])
         [CHR 0x80, CHR 0x81, CHR 0x82, CHR 0x83, CHR 0x84, CHR 0x85, CHR 0x86, CHR 0x87,
          CHR 0x88, CHR 0x89, CHR 0x8A, CHR 0xA8, CHR 0xA9, CHR 0xAF]
     @ [[CHR 0xE2, CHR 0x81, CHR 0x9F], [CHR 0xE3, CHR 0x80, CHR 0x80]]"

function lstrip :: "string \<Rightarrow> string" where
  "lstrip s = (case find (\<lambda>w. prefix w s) whitespace of
                 None \<Rightarrow> s
               | Some w \<Rightarrow> lstrip (drop (length w) s))"
  by pat_completeness auto
termination
proof (relation "measure length")
  fix s w
  assume "find (\<lambda>w. prefix w s) whitespace = Some w"
  then have "w \<in> set whitespace" and "prefix w s"
    by (auto simp: find_Some_iff)
  then have "w \<noteq> []" and "length w \<le> length s"
    by (auto simp: whitespace_def prefix_length_le)
  then show "(drop (length w) s, s) \<in> measure length"
    by (cases w; cases s) auto
qed simp

function rstrip :: "string \<Rightarrow> string" where
  "rstrip s = (case find (\<lambda>w. suffix w s) whitespace of
                 None \<Rightarrow> s
               | Some w \<Rightarrow> rstrip (take (length s - length w) s))"
  by pat_completeness auto
termination
proof (relation "measure length")
  fix s w
  assume "find (\<lambda>w. suffix w s) whitespace = Some w"
  then have "w \<in> set whitespace" and "suffix w s"
    by (auto simp: find_Some_iff)
  then have "w \<noteq> []" and "length w \<le> length s"
    by (auto simp: whitespace_def suffix_length_le)
  then show "(take (length s - length w) s, s) \<in> measure length"
    by (cases w; cases s) auto
qed simp

declare lstrip.simps [simp del] rstrip.simps [simp del]

definition py_strip :: "string \<Rightarrow> string" where
  "py_strip s = rstrip (lstrip s)"

definition marker :: string where
  "marker = ''Achievement Unlocked:''"

text \<open>The trophy emoji U+1F3C6.\<close>

definition trophy :: string where
  "trophy = [CHR 0xF0, CHR 0x9F, CHR 0x8F, CHR 0x86]"

text \<open>
  The test and the extraction of the ending branch:\<^verbatim>\<open>
  if "Achievement Unlocked:" in current_node.text:
      achievement = current_node.text.split("Achievement Unlocked:")[1].split(trophy)[0].strip()\<close>
  \<open>Inr None\<close> when the test fails, \<open>Inr (Some achievement)\<close> when the assignment is
  reached, \<open>Inl e\<close> if it raised.
\<close>

definition detect_achievement :: "string \<Rightarrow> py_error + string option" where
  "detect_achievement text =
     (if contains marker text then
        (case py_split text marker of Inl e \<Rightarrow> Inl e | Inr parts \<Rightarrow>
         case py_index parts 1 of Inl e \<Rightarrow> Inl e | Inr rest \<Rightarrow>
         case py_split rest trophy of Inl e \<Rightarrow> Inl e | Inr pieces \<Rightarrow>
         case py_index pieces 0 of Inl e \<Rightarrow> Inl e | Inr name \<Rightarrow>
         Inr (Some (py_strip name)))
      else Inr None)"

section \<open>Definitions used to state the properties\<close>

text \<open>The five fields of a node that a definition carries (all but the id).\<close>

definition node_fields :: "StoryNode \<Rightarrow> pyval \<times> pyval \<times> pyval \<times> pyval \<times> pyval" where
  "node_fields n = (node_text n, choices n, metadata n, image_prompt n, mood n)"

text \<open>Every node is stored under its own id, as \<^verbatim>\<open>load_tree\<close> and \<^verbatim>\<open>add_node\<close> store it.\<close>

definition ids_match :: "(string \<times> StoryNode) list \<Rightarrow> bool" where
  "ids_match sn = list_all (\<lambda>(k, n). node_id n = k) sn"

text \<open>The items that \<^verbatim>\<open>export_tree\<close> produces for a dict of nodes, in order.\<close>

definition exported :: "(string \<times> StoryNode) list \<Rightarrow> (pykey \<times> pyval) list" where
  "exported sn = map (\<lambda>(k, n). (KStr k, export_entry n)) sn"

text \<open>
  The invariant of the session: \<^verbatim>\<open>progress\<close> and \<^verbatim>\<open>story_text\<close> have the same length,
  at least one; the last id of \<^verbatim>\<open>progress\<close> is \<^verbatim>\<open>current_node\<close>; \<^verbatim>\<open>choices_made\<close> is
  the number of ids after the first.
\<close>

definition session_inv :: "session \<Rightarrow> bool" where
  "session_inv s =
     (length (progress s) = length (story_text s)
      \<and> 1 \<le> length (progress s)
      \<and> last (progress s) = current_node s
      \<and> choices_made s = int (length (progress s)) - 1)"

text \<open>
  A small graph for concrete evaluations. Its first node offers two choices; the target of
  the second, \<^verbatim>\<open>village_gate\<close>, is not a node of the graph.
\<close>

definition demo_node :: "string \<Rightarrow> string \<Rightarrow> (pykey \<times> pyval) list \<Rightarrow> StoryNode" where
  "demo_node i t cs = \<lparr>node_id = i, node_text = PStr t, choices = PDict cs,
     metadata = PDict [], image_prompt = PStr [], mood = PStr ''neutral''\<rparr>"

definition demo_agent :: EnhancedStoryAgent where
  "demo_agent = \<lparr>story_nodes =
       [(''start'', demo_node ''start'' ''Two paths.''
           [(KStr ''forest'', PStr ''forest_entrance''), (KStr ''village'', PStr ''village_gate'')]),
        (''forest_entrance'', demo_node ''forest_entrance'' ''The woods.''
           [(KStr ''back'', PStr ''start'')])],
     root_id = Some ''start'', agent_achievements = []\<rparr>"

text \<open>The session that starts on this graph.\<close>

definition demo_session :: session where
  "demo_session = \<lparr>progress = [PStr ''start''], current_node = PStr ''start'',
     story_text = [PStr ''Two paths.''], achievements = {}, choices_made = 0\<rparr>"

text \<open>
  Three definitions: one with the key \<^verbatim>\<open>start\<close> in last position, one with an integer
  key, no key \<^verbatim>\<open>start\<close> and an entry that spells the image prompt \<^verbatim>\<open>imagePrompt\<close>, and
  one whose second entry is a number instead of a dict.
\<close>

definition tree_start_last :: "(pykey \<times> pyval) list" where
  "tree_start_last =
     [(KStr ''intro'', PDict [(KStr ''text'', PStr ''Hello'')]),
      (KStr ''start'', PDict [(KStr ''mood'', PStr ''epic'')])]"

definition tree_int_keys :: "(pykey \<times> pyval) list" where
  "tree_int_keys =
     [(KInt 7, PDict [(KStr ''text'', PStr ''Seven''), (KStr ''imagePrompt'', PStr ''a door'')]),
      (KStr ''b'', PDict [])]"

definition tree_malformed :: "(pykey \<times> pyval) list" where
  "tree_malformed =
     [(KStr ''intro'', PDict [(KStr ''text'', PStr ''Hello'')]),
      (KStr ''bad'', PInt 5)]"

text \<open>
  The session on the small graph after the choice \<^verbatim>\<open>forest\<close>, and the agent and the
  session after the first of the three definitions has then been imported.
\<close>

definition after_forest :: session where
  "after_forest = \<lparr>progress = [PStr ''start'', PStr ''forest_entrance''],
     current_node = PStr ''forest_entrance'',
     story_text = [PStr ''Two paths.'', PStr ''The woods.''],
     achievements = {}, choices_made = 1\<rparr>"

definition imported_agent :: EnhancedStoryAgent where
  "imported_agent = \<lparr>story_nodes =
      [(''intro'', \<lparr>node_id = ''intro'', node_text = PStr ''Hello'', choices = PDict [],
          metadata = PDict [], image_prompt = PStr [], mood = PStr ''neutral''\<rparr>),
       (''start'', \<lparr>node_id = ''start'', node_text = PStr [], choices = PDict [],
          metadata = PDict [], image_prompt = PStr [], mood = PStr ''epic''\<rparr>)],
      root_id = Some ''start'', agent_achievements = []\<rparr>"

definition imported_session :: session where
  "imported_session = \<lparr>progress = [PStr ''start''], current_node = PStr ''start'',
     story_text = [PStr []], achievements = {}, choices_made = 1\<rparr>"

text \<open>
  What the extraction is meant to return, read from the left: the text that follows the
  first occurrence of \<open>sep\<close>, if there is one.
\<close>

fun after_first :: "'a list \<Rightarrow> 'a list \<Rightarrow> 'a list option" where
  "after_first sep [] = (if sep = [] then Some [] else None)"
| "after_first sep (c # cs) =
     (if prefix sep (c # cs) then Some (drop (length sep) (c # cs)) else after_first sep cs)"

text \<open>
  The text up to the first position at which one of the two delimiters \<open>m\<close> and \<open>t\<close>
  begins, or all of it when neither occurs.
\<close>

fun text_until :: "'a list \<Rightarrow> 'a list \<Rightarrow> 'a list \<Rightarrow> 'a list" where
  "text_until m t [] = []"
| "text_until m t (c # cs) =
     (if prefix m (c # cs) \<or> prefix t (c # cs) then [] else c # text_until m t cs)"

text \<open>The example text of the specification.\<close>

definition spec_example :: string where
  "spec_example = ''... Achievement Unlocked: Keeper of the Light '' @ trophy @ '' ...''"

section \<open>Dictionaries: insertion order\<close>

lemma map_of_dict_set: "map_of (dict_set d k v) = (map_of d)(k \<mapsto> v)"
  by (induction d) (auto simp: fun_eq_iff)

lemma keys_dict_set:
  "keys (dict_set d k v) = (if k \<in> set (keys d) then keys d else keys d @ [k])"
  by (induction d) (force simp: keys_def)+

lemma dict_set_new: "k \<notin> set (keys d) \<Longrightarrow> dict_set d k v = d @ [(k, v)]"
  by (induction d) (auto simp: keys_def)

lemma set_keys_dict_set: "set (keys (dict_set d k v)) = insert k (set (keys d))"
  by (simp add: keys_dict_set) auto

lemma dict_set_nonempty: "dict_set d k v \<noteq> []"
  by (cases d) (auto split: if_splits)

section \<open>The node dict of an agent\<close>

text \<open>
  The node dict has distinct keys and every node sits under its own id: so it is after the
  constructor, and \<^verbatim>\<open>load_tree\<close>, \<^verbatim>\<open>add_node\<close> and \<^verbatim>\<open>link_choice\<close> keep it so,
  also when they raise.
\<close>

lemma distinct_dict_set: "distinct (keys d) \<Longrightarrow> distinct (keys (dict_set d k v))"
  by (simp add: keys_dict_set)

lemma ids_match_dict_set:
  "ids_match sn \<Longrightarrow> node_id n = k \<Longrightarrow> ids_match (dict_set sn k n)"
  by (induction sn) (auto simp: ids_match_def)

lemma load_loop_wf:
  "distinct (keys sn) \<and> ids_match sn \<Longrightarrow>
   distinct (keys (state_of (load_loop sn tree))) \<and> ids_match (state_of (load_loop sn tree))"
proof (induction sn tree rule: load_loop.induct)
  case (1 sn)
  then show ?case by simp
next
  case (2 sn nid node rest)
  show ?case
  proof (cases "make_node nid node")
    case (Inl e)
    with "2.prems" show ?thesis by simp
  next
    case (Inr obj)
    then have "node_id obj = str nid"
      by (cases node) auto
    with "2.prems" have "distinct (keys (dict_set sn (str nid) obj))
        \<and> ids_match (dict_set sn (str nid) obj)"
      by (simp add: distinct_dict_set ids_match_dict_set)
    from "2.IH" [OF Inr this] Inr show ?thesis by simp
  qed
qed

lemma load_tree_wf:
  "distinct (keys (story_nodes (state_of (load_tree a tree))))
   \<and> ids_match (story_nodes (state_of (load_tree a tree)))"
proof (cases tree)
  case (PDict items)
  have "distinct (keys ([] :: (string \<times> StoryNode) list)) \<and> ids_match []"
    by (simp add: keys_def ids_match_def)
  from load_loop_wf [OF this, of items] PDict show ?thesis
    by (cases "load_loop [] items") auto
qed (simp_all add: keys_def ids_match_def)

lemma add_node_wf:
  "distinct (keys (story_nodes a)) \<and> ids_match (story_nodes a) \<Longrightarrow>
   distinct (keys (story_nodes (fst (add_node a nid t c i m))))
   \<and> ids_match (story_nodes (fst (add_node a nid t c i m)))"
  by (simp add: add_node_def distinct_dict_set ids_match_dict_set)

lemma ids_match_lookup: "ids_match sn \<Longrightarrow> map_of sn k = Some n \<Longrightarrow> node_id n = k"
  by (induction sn) (auto simp: ids_match_def split: if_splits)

lemma link_choice_wf:
  assumes wf: "distinct (keys (story_nodes a)) \<and> ids_match (story_nodes a)"
  shows "distinct (keys (story_nodes (state_of (link_choice a from_id label to_id))))
   \<and> ids_match (story_nodes (state_of (link_choice a from_id label to_id)))"
proof (cases "map_of (story_nodes a) from_id")
  case None
  with wf show ?thesis by (simp add: link_choice_def)
next
  case (Some n)
  with wf have "node_id n = from_id"
    by (auto dest: ids_match_lookup)
  then have "\<And>c. ids_match (dict_set (story_nodes a) from_id (n\<lparr>choices := c\<rparr>))"
    using wf by (simp add: ids_match_dict_set)
  with wf Some show ?thesis
    by (cases "choices n") (simp_all add: link_choice_def distinct_dict_set)
qed

section \<open>Export followed by load\<close>

lemma make_node_export_entry:
  "make_node (KStr k) (export_entry n) = Inr (n\<lparr>node_id := k\<rparr>)"
  by (simp add: export_entry_def dict_get_def)

lemma keys_exported: "keys (exported sn) = map KStr (keys sn)"
  by (induction sn) (auto simp: exported_def keys_def)

lemma export_loop_append:
  "distinct (keys out @ map KStr (keys sn)) \<Longrightarrow> export_loop out sn = out @ exported sn"
proof (induction sn arbitrary: out)
  case Nil
  then show ?case by (simp add: exported_def)
next
  case (Cons p sn)
  obtain k n where p: "p = (k, n)" by (cases p)
  from Cons.prems have new: "KStr k \<notin> set (keys out)"
    by (auto simp: p keys_def)
  from Cons.prems have "distinct (keys (out @ [(KStr k, export_entry n)]) @ map KStr (keys sn))"
    by (auto simp: p keys_def)
  then have "export_loop (out @ [(KStr k, export_entry n)]) sn
      = (out @ [(KStr k, export_entry n)]) @ exported sn"
    by (rule Cons.IH)
  then show ?case
    by (simp add: p dict_set_new [OF new] exported_def)
qed

lemma load_loop_exported:
  "distinct (keys acc @ keys sn) \<Longrightarrow>
   load_loop acc (exported sn) = Ok (acc @ map (\<lambda>(k, n). (k, n\<lparr>node_id := k\<rparr>)) sn)"
proof (induction sn arbitrary: acc)
  case Nil
  then show ?case by (simp add: exported_def)
next
  case (Cons p sn)
  obtain k n where p: "p = (k, n)" by (cases p)
  from Cons.prems have new: "k \<notin> set (keys acc)"
    by (auto simp: p keys_def)
  from Cons.prems have "distinct (keys (acc @ [(k, n\<lparr>node_id := k\<rparr>)]) @ keys sn)"
    by (auto simp: p keys_def)
  then have "load_loop (acc @ [(k, n\<lparr>node_id := k\<rparr>)]) (exported sn)
      = Ok ((acc @ [(k, n\<lparr>node_id := k\<rparr>)]) @ map (\<lambda>(k, n). (k, n\<lparr>node_id := k\<rparr>)) sn)"
    by (rule Cons.IH)
  then show ?case
    using make_node_export_entry [of k n]
    by (simp add: p exported_def dict_set_new [OF new])
qed

lemma reload_fields:
  "map (\<lambda>(k, n). (k, node_fields n)) (map (\<lambda>(k, n). (k, n\<lparr>node_id := k\<rparr>)) sn)
     = map (\<lambda>(k, n). (k, node_fields n)) sn"
  by (induction sn) (auto simp: node_fields_def)

lemma reload_ids: "ids_match sn \<Longrightarrow> map (\<lambda>(k, n). (k, n\<lparr>node_id := k\<rparr>)) sn = sn"
  by (induction sn) (auto simp: ids_match_def)

lemma reload_keys: "keys (map (\<lambda>(k, n). (k, n\<lparr>node_id := k\<rparr>)) sn) = keys sn"
  by (induction sn) (auto simp: keys_def)

text \<open>
  C1. For every graph \<open>g\<close> (a dict of nodes, so with distinct keys) and every agent
  \<open>a\<close>, loading into \<open>a\<close> what \<open>g\<close> exports succeeds and gives the same node
  ids in the same order, the same text, choices, metadata, image prompt and mood for every
  node, hence the same order of the choice labels inside every node; where the nodes of
  \<open>g\<close> are stored under their own ids, the node dict is the same.
\<close>

theorem export_load_roundtrip:
  assumes "distinct (keys (story_nodes g))"
  shows "\<exists>b. load_tree a (export_tree g) = Ok b
           \<and> keys (story_nodes b) = keys (story_nodes g)
           \<and> map (\<lambda>(k, n). (k, node_fields n)) (story_nodes b)
               = map (\<lambda>(k, n). (k, node_fields n)) (story_nodes g)
           \<and> (ids_match (story_nodes g) \<longrightarrow> story_nodes b = story_nodes g)"
proof -
  let ?sn = "story_nodes g"
  let ?sn' = "map (\<lambda>(k, n). (k, n\<lparr>node_id := k\<rparr>)) ?sn"
  from assms have "distinct (keys ([] :: (pykey \<times> pyval) list) @ map KStr (keys ?sn))"
    by (simp add: keys_def distinct_map inj_on_def)
  then have ex: "export_tree g = PDict (exported ?sn)"
    by (simp add: export_tree_def export_loop_append)
  from assms have "distinct (keys ([] :: (string \<times> StoryNode) list) @ keys ?sn)"
    by (simp add: keys_def)
  then have "load_loop [] (exported ?sn) = Ok ([] @ ?sn')"
    by (rule load_loop_exported)
  then obtain r where "load_tree a (export_tree g) = Ok (a\<lparr>story_nodes := ?sn', root_id := r\<rparr>)"
    by (simp add: ex)
  then show ?thesis
    using reload_fields [of ?sn] reload_keys [of ?sn] reload_ids [of ?sn]
    by (simp del: map_map)
qed

theorem export_load_roundtrip_witness:
  "distinct (keys (story_nodes demo_agent))
   \<and> ids_match (story_nodes demo_agent)
   \<and> (\<exists>b. load_tree demo_agent (export_tree demo_agent) = Ok b
           \<and> keys (story_nodes b) = [''start'', ''forest_entrance'']
           \<and> story_nodes b = story_nodes demo_agent)"
proof -
  have d: "distinct (keys (story_nodes demo_agent))"
    by (simp add: demo_agent_def keys_def)
  have i: "ids_match (story_nodes demo_agent)"
    by (simp add: demo_agent_def ids_match_def demo_node_def)
  have k: "keys (story_nodes demo_agent) = [''start'', ''forest_entrance'']"
    by (simp add: demo_agent_def keys_def)
  from export_load_roundtrip [OF d, of demo_agent] i k d show ?thesis
    by auto
qed

section \<open>Loading a definition\<close>

lemma load_loop_keys:
  "load_loop sn tree = Ok sn' \<Longrightarrow> set (keys sn') = set (keys sn) \<union> str ` set (keys tree)"
proof (induction sn tree rule: load_loop.induct)
  case (1 sn)
  then show ?case by (simp add: keys_def)
next
  case (2 sn nid node rest)
  from "2.prems" obtain obj where m: "make_node nid node = Inr obj"
    and l: "load_loop (dict_set sn (str nid) obj) rest = Ok sn'"
    by (auto split: sum.splits)
  from "2.IH" [OF m l] show ?case
    by (simp add: set_keys_dict_set) (simp add: keys_def)
qed

lemma load_loop_sound:
  "load_loop sn tree = Ok sn' \<Longrightarrow> map_of sn' k = Some n \<Longrightarrow>
   map_of sn k = Some n \<or> (\<exists>nid node. (nid, node) \<in> set tree \<and> str nid = k \<and> make_node nid node = Inr n)"
proof (induction sn tree rule: load_loop.induct)
  case (1 sn)
  then show ?case by simp
next
  case (2 sn nid node rest)
  from "2.prems" obtain obj where m: "make_node nid node = Inr obj"
    and l: "load_loop (dict_set sn (str nid) obj) rest = Ok sn'"
    by (auto split: sum.splits)
  from "2.IH" [OF m l "2.prems"(2)] m show ?case
    by (auto simp: map_of_dict_set split: if_splits)
qed

lemma make_node_id: "make_node nid node = Inr n \<Longrightarrow> node_id n = str nid"
  by (cases node) auto

lemma load_tree_Ok:
  "load_tree a (PDict tree) = Ok b \<Longrightarrow>
   \<exists>sn. load_loop [] tree = Ok sn \<and> story_nodes b = sn
     \<and> root_id b = (if dict_has tree (KStr ''start'') then Some ''start''
                     else (case sn of [] \<Rightarrow> None | (k, n) # rest \<Rightarrow> Some k))"
  by (auto split: outcome.splits)

lemma str_int_7: "str_int 7 = ''7''"
  by code_simp

lemma load_start_last:
  "load_tree demo_agent (PDict tree_start_last) = Ok (demo_agent\<lparr>story_nodes :=
      [(''intro'', \<lparr>node_id = ''intro'', node_text = PStr ''Hello'', choices = PDict [],
          metadata = PDict [], image_prompt = PStr [], mood = PStr ''neutral''\<rparr>),
       (''start'', \<lparr>node_id = ''start'', node_text = PStr [], choices = PDict [],
          metadata = PDict [], image_prompt = PStr [], mood = PStr ''epic''\<rparr>)],
      root_id := Some ''start''\<rparr>)"
  by (simp add: tree_start_last_def dict_get_def dict_has_def)

lemma load_int_keys:
  "load_tree demo_agent (PDict tree_int_keys) = Ok (demo_agent\<lparr>story_nodes :=
      [(''7'', \<lparr>node_id = ''7'', node_text = PStr ''Seven'', choices = PDict [],
          metadata = PDict [], image_prompt = PStr [], mood = PStr ''neutral''\<rparr>),
       (''b'', \<lparr>node_id = ''b'', node_text = PStr [], choices = PDict [],
          metadata = PDict [], image_prompt = PStr [], mood = PStr ''neutral''\<rparr>)],
      root_id := Some ''7''\<rparr>)"
  by (simp add: tree_int_keys_def dict_get_def dict_has_def str_int_7)

lemma load_empty: "load_tree demo_agent (PDict []) = Ok (demo_agent\<lparr>story_nodes := [], root_id := None\<rparr>)"
  by (simp add: dict_has_def)

text \<open>
  C5. For every definition that \<^verbatim>\<open>load_tree\<close> accepts: if it has the key \<^verbatim>\<open>start\<close>,
  whatever its other keys and their order, the root id is \<^verbatim>\<open>start\<close>; if it is not empty
  and has no key \<^verbatim>\<open>start\<close>, the root id is a key of the node dict; if it is empty, the
  root id is \<^verbatim>\<open>None\<close>.
\<close>

theorem load_tree_root:
  assumes "load_tree a (PDict tree) = Ok b"
  shows "(dict_has tree (KStr ''start'') \<longrightarrow> root_id b = Some ''start'')
       \<and> (\<not> dict_has tree (KStr ''start'') \<and> tree \<noteq> [] \<longrightarrow>
            (\<exists>k. root_id b = Some k \<and> k \<in> set (keys (story_nodes b))))
       \<and> (tree = [] \<longrightarrow> root_id b = None)"
proof -
  from load_tree_Ok [OF assms] obtain sn where l: "load_loop [] tree = Ok sn"
    and s: "story_nodes b = sn"
    and r: "root_id b = (if dict_has tree (KStr ''start'') then Some ''start''
                     else (case sn of [] \<Rightarrow> None | (k, n) # rest \<Rightarrow> Some k))"
    by blast
  have "tree \<noteq> [] \<Longrightarrow> sn \<noteq> []"
    using load_loop_keys [OF l] by (cases tree) (auto simp: keys_def)
  moreover have "tree = [] \<Longrightarrow> sn = []"
    using l by simp
  moreover have "tree = [] \<Longrightarrow> \<not> dict_has tree (KStr ''start'')"
    by (simp add: dict_has_def)
  ultimately show ?thesis
    using r s by (cases sn) (auto simp: keys_def)
qed

theorem load_tree_root_witness:
  "dict_has tree_start_last (KStr ''start'')
   \<and> root_id (state_of (load_tree demo_agent (PDict tree_start_last))) = Some ''start''
   \<and> \<not> dict_has tree_int_keys (KStr ''start'') \<and> tree_int_keys \<noteq> []
   \<and> root_id (state_of (load_tree demo_agent (PDict tree_int_keys))) = Some ''7''
   \<and> ''7'' \<in> set (keys (story_nodes (state_of (load_tree demo_agent (PDict tree_int_keys)))))
   \<and> root_id (state_of (load_tree demo_agent (PDict []))) = None"
proof -
  have h1: "dict_has tree_start_last (KStr ''start'')"
    by (simp add: tree_start_last_def dict_has_def)
  have h2: "\<not> dict_has tree_int_keys (KStr ''start'')" "tree_int_keys \<noteq> []"
    by (simp_all add: tree_int_keys_def dict_has_def)
  from load_tree_root [OF load_start_last] h1
  have r1: "root_id (state_of (load_tree demo_agent (PDict tree_start_last))) = Some ''start''"
    unfolding load_start_last state_of.simps by simp
  from load_tree_root [OF load_int_keys] h2
  have r2: "root_id (state_of (load_tree demo_agent (PDict tree_int_keys))) = Some ''7''
     \<and> ''7'' \<in> set (keys (story_nodes (state_of (load_tree demo_agent (PDict tree_int_keys)))))"
    unfolding load_int_keys state_of.simps by (simp add: keys_def)
  from load_tree_root [OF load_empty]
  have r3: "root_id (state_of (load_tree demo_agent (PDict []))) = None"
    unfolding load_empty state_of.simps by simp
  from h1 h2 r1 r2 r3 show ?thesis by blast
qed

text \<open>
  C10. For every definition that \<^verbatim>\<open>load_tree\<close> accepts and every key \<open>nid\<close> of it, the
  node dict has the key \<^verbatim>\<open>str(nid)\<close>, the node stored there has that string as its id,
  and \<^verbatim>\<open>get_node\<close> finds it under that string (in the example with the key 7 that
  follows, not under the integer).
\<close>

theorem load_tree_coerces_ids:
  assumes "load_tree a (PDict tree) = Ok b" and "(nid, node) \<in> set tree"
  shows "\<exists>n. map_of (story_nodes b) (str nid) = Some n \<and> node_id n = str nid
           \<and> get_node b (PStr (str nid)) = Inr n"
proof -
  from load_tree_Ok [OF assms(1)] obtain sn where l: "load_loop [] tree = Ok sn"
    and s: "story_nodes b = sn"
    by blast
  from assms(2) have "str nid \<in> set (keys sn)"
    using load_loop_keys [OF l] by (force simp: keys_def)
  then obtain n where n: "map_of sn (str nid) = Some n"
    by (metis keys_def map_of_eq_None_iff not_Some_eq set_map)
  from load_loop_sound [OF l n] have "node_id n = str nid"
    by (auto dest: make_node_id)
  with n s show ?thesis by simp
qed

theorem load_tree_coerces_ids_witness:
  "(KInt 7, PDict [(KStr ''text'', PStr ''Seven''), (KStr ''imagePrompt'', PStr ''a door'')])
      \<in> set tree_int_keys
   \<and> (\<exists>n. map_of (story_nodes (state_of (load_tree demo_agent (PDict tree_int_keys)))) ''7'' = Some n
         \<and> node_id n = ''7''
         \<and> get_node (state_of (load_tree demo_agent (PDict tree_int_keys))) (PStr ''7'') = Inr n)
   \<and> get_node (state_of (load_tree demo_agent (PDict tree_int_keys))) (PInt 7) = Inl KeyError"
proof -
  have m: "(KInt 7, PDict [(KStr ''text'', PStr ''Seven''), (KStr ''imagePrompt'', PStr ''a door'')])
      \<in> set tree_int_keys"
    by (simp add: tree_int_keys_def)
  from load_tree_coerces_ids [OF load_int_keys m] m show ?thesis
    unfolding load_int_keys state_of.simps by (simp add: str_int_7)
qed

text \<open>
  C4, as the code has it. Every node stored by an accepted load comes from an entry of the
  definition, and each of its fields is the value the entry has under that field's key or,
  when the key is absent, the default: the empty string for the text, an empty dict for
  the choices and the metadata, the empty string for the image prompt, \<^verbatim>\<open>neutral\<close> for the
  mood. The image prompt is read under the key \<^verbatim>\<open>image_prompt\<close> only.
\<close>

theorem load_tree_defaults:
  assumes "load_tree a (PDict tree) = Ok b" and "map_of (story_nodes b) k = Some n"
  shows "\<exists>nid d. (nid, PDict d) \<in> set tree \<and> str nid = k
     \<and> node_text n = (case map_of d (KStr ''text'') of None \<Rightarrow> PStr '''' | Some v \<Rightarrow> v)
     \<and> choices n = (case map_of d (KStr ''choices'') of None \<Rightarrow> PDict [] | Some v \<Rightarrow> v)
     \<and> metadata n = (case map_of d (KStr ''metadata'') of None \<Rightarrow> PDict [] | Some v \<Rightarrow> v)
     \<and> image_prompt n = (case map_of d (KStr ''image_prompt'') of None \<Rightarrow> PStr '''' | Some v \<Rightarrow> v)
     \<and> mood n = (case map_of d (KStr ''mood'') of None \<Rightarrow> PStr ''neutral'' | Some v \<Rightarrow> v)"
proof -
  from load_tree_Ok [OF assms(1)] obtain sn where l: "load_loop [] tree = Ok sn"
    and s: "story_nodes b = sn"
    by blast
  from assms(2) s have "map_of sn k = Some n" by simp
  from load_loop_sound [OF l this] obtain nid node
    where e: "(nid, node) \<in> set tree" "str nid = k" and m: "make_node nid node = Inr n"
    by auto
  from m obtain d where d: "node = PDict d" by (cases node) auto
  with m have "n = \<lparr>
      node_id = str nid,
      node_text = dict_get d (KStr ''text'') (PStr ''''),
      choices = dict_get d (KStr ''choices'') (PDict []),
      metadata = dict_get d (KStr ''metadata'') (PDict []),
      image_prompt = dict_get d (KStr ''image_prompt'') (PStr ''''),
      mood = dict_get d (KStr ''mood'') (PStr ''neutral'') \<rparr>"
    by simp
  then have "node_text n = dict_get d (KStr ''text'') (PStr '''')"
    "choices n = dict_get d (KStr ''choices'') (PDict [])"
    "metadata n = dict_get d (KStr ''metadata'') (PDict [])"
    "image_prompt n = dict_get d (KStr ''image_prompt'') (PStr '''')"
    "mood n = dict_get d (KStr ''mood'') (PStr ''neutral'')"
    by simp_all
  with e d show ?thesis
    unfolding dict_get_def by blast
qed

theorem load_tree_defaults_witness:
  "load_tree demo_agent (PDict tree_int_keys) = Ok (state_of (load_tree demo_agent (PDict tree_int_keys)))
   \<and> (\<exists>n. map_of (story_nodes (state_of (load_tree demo_agent (PDict tree_int_keys)))) ''b'' = Some n
        \<and> node_text n = PStr '''' \<and> choices n = PDict [] \<and> metadata n = PDict []
        \<and> image_prompt n = PStr '''' \<and> mood n = PStr ''neutral'')"
proof -
  let ?b = "state_of (load_tree demo_agent (PDict tree_int_keys))"
  have l: "load_tree demo_agent (PDict tree_int_keys) = Ok ?b"
    unfolding load_int_keys state_of.simps by simp
  obtain n where n: "map_of (story_nodes ?b) ''b'' = Some n"
    unfolding load_int_keys state_of.simps by simp
  from load_tree_defaults [OF l n] obtain nid d where
    e: "(nid, PDict d) \<in> set tree_int_keys" "str nid = ''b''"
    and f: "node_text n = (case map_of d (KStr ''text'') of None \<Rightarrow> PStr '''' | Some v \<Rightarrow> v)"
      "choices n = (case map_of d (KStr ''choices'') of None \<Rightarrow> PDict [] | Some v \<Rightarrow> v)"
      "metadata n = (case map_of d (KStr ''metadata'') of None \<Rightarrow> PDict [] | Some v \<Rightarrow> v)"
      "image_prompt n = (case map_of d (KStr ''image_prompt'') of None \<Rightarrow> PStr '''' | Some v \<Rightarrow> v)"
      "mood n = (case map_of d (KStr ''mood'') of None \<Rightarrow> PStr ''neutral'' | Some v \<Rightarrow> v)"
    by blast
  from e have "d = []"
    by (auto simp: tree_int_keys_def str_int_7)
  with f n l show ?thesis by simp
qed

text \<open>
  C4 as stated asks the image prompt to be read from the key \<^verbatim>\<open>imagePrompt\<close> as well. An
  entry that has only that key is accepted and gets the default, the empty string.
\<close>

theorem load_tree_imagePrompt_counterexample:
  "load_tree demo_agent (PDict [(KStr ''a'', PDict [(KStr ''imagePrompt'', PStr ''a door'')])])
     = Ok (demo_agent\<lparr>story_nodes :=
         [(''a'', \<lparr>node_id = ''a'', node_text = PStr '''', choices = PDict [],
             metadata = PDict [], image_prompt = PStr '''', mood = PStr ''neutral''\<rparr>)],
         root_id := Some ''a''\<rparr>)
   \<and> PStr '''' \<noteq> PStr ''a door''"
  by (simp add: dict_get_def dict_has_def)

text \<open>
  C2 asks a failed load to leave the node dict and the root id as they were. Loading the
  definition whose second entry is the number 5 into the agent that holds the small graph
  raises \<^verbatim>\<open>AttributeError\<close> and keeps the root id \<^verbatim>\<open>start\<close>, but the node dict now holds
  the node of the first entry alone, and the root is no longer a node of the graph.
\<close>

theorem load_tree_malformed_not_atomic:
  "load_tree demo_agent (PDict tree_malformed)
     = Raised AttributeError (demo_agent\<lparr>story_nodes :=
         [(''intro'', \<lparr>node_id = ''intro'', node_text = PStr ''Hello'', choices = PDict [],
             metadata = PDict [], image_prompt = PStr '''', mood = PStr ''neutral''\<rparr>)]\<rparr>)
   \<and> keys (story_nodes demo_agent) = [''start'', ''forest_entrance'']
   \<and> keys (story_nodes (state_of (load_tree demo_agent (PDict tree_malformed)))) = [''intro'']
   \<and> root_id (state_of (load_tree demo_agent (PDict tree_malformed))) = Some ''start''
   \<and> get_node (state_of (load_tree demo_agent (PDict tree_malformed))) (PStr ''start'') = Inl KeyError"
  by (simp add: tree_malformed_def dict_get_def dict_has_def keys_def demo_agent_def)

section \<open>Linking a choice\<close>

text \<open>
  C9. \<^verbatim>\<open>link_choice\<close> raises \<^verbatim>\<open>KeyError\<close> and changes nothing when \<open>from_id\<close> is not a
  node. When it is a node whose choices are a dict, the call returns normally for every
  target \<open>to_id\<close>, whether a node or not: the label then maps to \<open>to_id\<close>, every other
  label keeps its target, an existing label keeps its position and a new label comes last;
  the node dict keeps its keys and their order.
\<close>

theorem link_choice_spec:
  "(map_of (story_nodes a) from_id = None \<longrightarrow>
      link_choice a from_id label to_id = Raised KeyError a)
   \<and> (\<forall>n d. map_of (story_nodes a) from_id = Some n \<and> choices n = PDict d \<longrightarrow>
        (\<exists>b d'. link_choice a from_id label to_id = Ok b
           \<and> keys (story_nodes b) = keys (story_nodes a)
           \<and> map_of (story_nodes b) from_id = Some (n\<lparr>choices := PDict d'\<rparr>)
           \<and> map_of d' (KStr label) = Some to_id
           \<and> (\<forall>l. l \<noteq> KStr label \<longrightarrow> map_of d' l = map_of d l)
           \<and> keys d' = (if KStr label \<in> set (keys d) then keys d else keys d @ [KStr label])))"
proof (intro conjI allI impI)
  assume "map_of (story_nodes a) from_id = None"
  then show "link_choice a from_id label to_id = Raised KeyError a"
    by (simp add: link_choice_def)
next
  fix n d
  assume h: "map_of (story_nodes a) from_id = Some n \<and> choices n = PDict d"
  let ?d' = "dict_set d (KStr label) to_id"
  let ?b = "a\<lparr>story_nodes := dict_set (story_nodes a) from_id (n\<lparr>choices := PDict ?d'\<rparr>)\<rparr>"
  from h have "from_id \<in> set (keys (story_nodes a))"
    by (auto simp: keys_def dest: map_of_SomeD intro: rev_image_eqI)
  then have k: "keys (story_nodes ?b) = keys (story_nodes a)"
    by (simp add: keys_dict_set)
  from h have "link_choice a from_id label to_id = Ok ?b"
    by (simp add: link_choice_def)
  moreover have "map_of (story_nodes ?b) from_id = Some (n\<lparr>choices := PDict ?d'\<rparr>)"
    by (simp add: map_of_dict_set)
  moreover have "map_of ?d' (KStr label) = Some to_id"
    by (simp add: map_of_dict_set)
  moreover have "\<forall>l. l \<noteq> KStr label \<longrightarrow> map_of ?d' l = map_of d l"
    by (simp add: map_of_dict_set)
  moreover have "keys ?d' = (if KStr label \<in> set (keys d) then keys d else keys d @ [KStr label])"
    by (rule keys_dict_set)
  ultimately show "\<exists>b d'. link_choice a from_id label to_id = Ok b
           \<and> keys (story_nodes b) = keys (story_nodes a)
           \<and> map_of (story_nodes b) from_id = Some (n\<lparr>choices := PDict d'\<rparr>)
           \<and> map_of d' (KStr label) = Some to_id
           \<and> (\<forall>l. l \<noteq> KStr label \<longrightarrow> map_of d' l = map_of d l)
           \<and> keys d' = (if KStr label \<in> set (keys d) then keys d else keys d @ [KStr label])"
    using k by blast
qed

theorem link_choice_spec_witness:
  "map_of (story_nodes demo_agent) ''nowhere'' = None
   \<and> link_choice demo_agent ''nowhere'' ''on'' (PStr ''start'') = Raised KeyError demo_agent
   \<and> (\<exists>b d'. link_choice demo_agent ''start'' ''forest'' (PStr ''missing'') = Ok b
         \<and> map_of (story_nodes b) ''start'' = Some (demo_node ''start'' ''Two paths.'' d')
         \<and> d' = [(KStr ''forest'', PStr ''missing''), (KStr ''village'', PStr ''village_gate'')])
   \<and> (\<exists>b d'. link_choice demo_agent ''start'' ''cave'' (PStr ''missing'') = Ok b
         \<and> map_of (story_nodes b) ''start'' = Some (demo_node ''start'' ''Two paths.'' d')
         \<and> keys d' = [KStr ''forest'', KStr ''village'', KStr ''cave'']
         \<and> map_of d' (KStr ''cave'') = Some (PStr ''missing''))"
proof -
  let ?d = "[(KStr ''forest'', PStr ''forest_entrance''), (KStr ''village'', PStr ''village_gate'')]"
  let ?n = "demo_node ''start'' ''Two paths.'' ?d"
  have none: "map_of (story_nodes demo_agent) ''nowhere'' = None"
    by (simp add: demo_agent_def)
  have some: "map_of (story_nodes demo_agent) ''start'' = Some ?n \<and> choices ?n = PDict ?d"
    by (simp add: demo_agent_def demo_node_def)
  have upd: "\<And>d'. ?n\<lparr>choices := PDict d'\<rparr> = demo_node ''start'' ''Two paths.'' d'"
    by (simp add: demo_node_def)
  from link_choice_spec [of demo_agent "''nowhere''" "''on''" "PStr ''start''"] none
  have c1: "link_choice demo_agent ''nowhere'' ''on'' (PStr ''start'') = Raised KeyError demo_agent"
    by blast
  from link_choice_spec [of demo_agent "''start''" "''forest''" "PStr ''missing''"] some
  obtain b d' where b: "link_choice demo_agent ''start'' ''forest'' (PStr ''missing'') = Ok b"
    "map_of (story_nodes b) ''start'' = Some (?n\<lparr>choices := PDict d'\<rparr>)"
    and v: "map_of d' (KStr ''forest'') = Some (PStr ''missing'')"
    and o: "\<forall>l. l \<noteq> KStr ''forest'' \<longrightarrow> map_of d' l = map_of ?d l"
    and k: "keys d' = (if KStr ''forest'' \<in> set (keys ?d) then keys ?d else keys ?d @ [KStr ''forest''])"
    by blast
  from k have k': "map fst d' = [KStr ''forest'', KStr ''village'']"
    by (simp add: keys_def)
  then obtain x y where d': "d' = [(KStr ''forest'', x), (KStr ''village'', y)]"
    by (auto simp: map_eq_Cons_conv)
  from o have "map_of d' (KStr ''village'') = map_of ?d (KStr ''village'')"
    by simp
  with v d' have "d' = [(KStr ''forest'', PStr ''missing''), (KStr ''village'', PStr ''village_gate'')]"
    by simp
  with b upd have c2: "\<exists>b d'. link_choice demo_agent ''start'' ''forest'' (PStr ''missing'') = Ok b
         \<and> map_of (story_nodes b) ''start'' = Some (demo_node ''start'' ''Two paths.'' d')
         \<and> d' = [(KStr ''forest'', PStr ''missing''), (KStr ''village'', PStr ''village_gate'')]"
    by simp
  from link_choice_spec [of demo_agent "''start''" "''cave''" "PStr ''missing''"] some
  obtain b2 d2 where b2: "link_choice demo_agent ''start'' ''cave'' (PStr ''missing'') = Ok b2"
    "map_of (story_nodes b2) ''start'' = Some (?n\<lparr>choices := PDict d2\<rparr>)"
    and v2: "map_of d2 (KStr ''cave'') = Some (PStr ''missing'')"
    and k2: "keys d2 = (if KStr ''cave'' \<in> set (keys ?d) then keys ?d else keys ?d @ [KStr ''cave''])"
    by blast
  from k2 have "keys d2 = [KStr ''forest'', KStr ''village'', KStr ''cave'']"
    by (simp add: keys_def)
  with b2 v2 upd have c3: "\<exists>b d'. link_choice demo_agent ''start'' ''cave'' (PStr ''missing'') = Ok b
         \<and> map_of (story_nodes b) ''start'' = Some (demo_node ''start'' ''Two paths.'' d')
         \<and> keys d' = [KStr ''forest'', KStr ''village'', KStr ''cave'']
         \<and> map_of d' (KStr ''cave'') = Some (PStr ''missing'')"
    by auto
  from none c1 c2 c3 show ?thesis by blast
qed

section \<open>Undo\<close>

text \<open>
  C7. With one id in \<^verbatim>\<open>progress\<close>, the undo button changes nothing in the session and
  shows a warning, not an error. With more than one it drops the last id of
  \<^verbatim>\<open>progress\<close> and the last text of \<^verbatim>\<open>story_text\<close>, makes the id before it current,
  takes one from \<^verbatim>\<open>choices_made\<close> and shows an information message.
\<close>

theorem undo_spec:
  "(length (progress s) = 1 \<longrightarrow>
      fst (undo s) = s \<and> snd (undo s) = st_warning nothing_to_undo_message)
   \<and> (1 < length (progress s) \<longrightarrow>
      progress (fst (undo s)) = butlast (progress s)
      \<and> story_text (fst (undo s)) = butlast (story_text s)
      \<and> choices_made (fst (undo s)) = choices_made s - 1
      \<and> current_node (fst (undo s)) = last (butlast (progress s))
      \<and> achievements (fst (undo s)) = achievements s
      \<and> snd (undo s) = st_info undid_message)"
  by (simp add: undo_def Let_def)

lemma init_session_demo: "init_session demo_agent = Inr demo_session"
  by (simp add: init_session_def demo_agent_def demo_session_def demo_node_def)

theorem undo_spec_witness:
  "length (progress demo_session) = 1
   \<and> fst (undo demo_session) = demo_session
   \<and> snd (undo demo_session) = st_warning nothing_to_undo_message
   \<and> 1 < length (progress (demo_session\<lparr>progress := [PStr ''start'', PStr ''forest_entrance''],
          current_node := PStr ''forest_entrance'',
          story_text := [PStr ''Two paths.'', PStr ''The woods.''],
          choices_made := 1\<rparr>))
   \<and> fst (undo (demo_session\<lparr>progress := [PStr ''start'', PStr ''forest_entrance''],
          current_node := PStr ''forest_entrance'',
          story_text := [PStr ''Two paths.'', PStr ''The woods.''],
          choices_made := 1\<rparr>)) = demo_session"
proof -
  let ?s = "demo_session\<lparr>progress := [PStr ''start'', PStr ''forest_entrance''],
          current_node := PStr ''forest_entrance'',
          story_text := [PStr ''Two paths.'', PStr ''The woods.''],
          choices_made := 1\<rparr>"
  have l1: "length (progress demo_session) = 1"
    by (simp add: demo_session_def)
  have l2: "1 < length (progress ?s)"
    by simp
  from undo_spec [of demo_session] l1
  have u1: "fst (undo demo_session) = demo_session
      \<and> snd (undo demo_session) = st_warning nothing_to_undo_message"
    by blast
  from undo_spec [of ?s] l2
  have "progress (fst (undo ?s)) = butlast (progress ?s)
      \<and> story_text (fst (undo ?s)) = butlast (story_text ?s)
      \<and> choices_made (fst (undo ?s)) = choices_made ?s - 1
      \<and> current_node (fst (undo ?s)) = last (butlast (progress ?s))
      \<and> achievements (fst (undo ?s)) = achievements ?s"
    by blast
  then have "fst (undo ?s) = demo_session"
    by (intro session.equality) (simp_all add: demo_session_def)
  with l1 l2 u1 show ?thesis by blast
qed

section \<open>The history invariant\<close>

lemma init_session_inv: "init_session a = Inr s \<Longrightarrow> session_inv s"
  by (auto simp: init_session_def session_inv_def split: sum.splits)

lemma undo_inv: "session_inv s \<Longrightarrow> session_inv (fst (undo s))"
  by (auto simp: undo_def session_inv_def Let_def)

lemma on_choice_inv: "session_inv s \<Longrightarrow> on_choice a s child_id = Ok s' \<Longrightarrow> session_inv s'"
  by (auto simp: on_choice_def session_inv_def Let_def split: sum.splits)

lemma press_choice_inv:
  "session_inv s \<Longrightarrow> press_choice a s label = Some (Ok s') \<Longrightarrow> session_inv s'"
  by (auto simp: press_choice_def split: sum.splits pyval.splits option.splits if_splits
      dest: on_choice_inv)

lemma run_inv: "session_inv s \<Longrightarrow> run a s evs = Some s' \<Longrightarrow> session_inv s'"
proof (induction a s evs rule: run.induct)
  case (1 a s)
  then show ?case by simp
next
  case (2 a s label es)
  from "2.prems"(2) obtain s1 where p: "press_choice a s label = Some (Ok s1)"
    and r: "run a s1 es = Some s'"
    by (auto split: option.splits outcome.splits)
  from press_choice_inv [OF "2.prems"(1) p] have "session_inv s1" .
  with "2.IH" p r show ?case by simp
next
  case (3 a s es)
  then show ?case by (simp add: undo_inv)
qed

text \<open>
  From the first initialisation of the session, every sequence of choice and undo buttons
  that all return normally keeps the invariant; the restart button gives a session that has
  it too.
\<close>

lemma history_invariant:
  assumes "init_session a = Inr s0" and "run a s0 evs = Some s"
  shows "length (progress s) = length (story_text s)
       \<and> 1 \<le> length (progress s)
       \<and> last (progress s) = current_node s
       \<and> choices_made s = int (length (progress s)) - 1"
  using run_inv [OF init_session_inv [OF assms(1)] assms(2)]
  by (simp add: session_inv_def)

lemma run_demo:
  "run demo_agent demo_session [Choose ''forest'', Undo, Undo, Choose ''forest'', Choose ''back'']
     = Some (demo_session\<lparr>progress := [PStr ''start'', PStr ''forest_entrance'', PStr ''start''],
          current_node := PStr ''start'',
          story_text := [PStr ''Two paths.'', PStr ''The woods.'', PStr ''Two paths.''],
          choices_made := 2\<rparr>)"
  by (simp add: press_choice_def on_choice_def undo_def demo_agent_def demo_session_def demo_node_def)

lemma history_invariant_demo:
  "init_session demo_agent = Inr demo_session
   \<and> run demo_agent demo_session [Choose ''forest'', Undo, Undo, Choose ''forest'', Choose ''back'']
       = Some (demo_session\<lparr>progress := [PStr ''start'', PStr ''forest_entrance'', PStr ''start''],
          current_node := PStr ''start'',
          story_text := [PStr ''Two paths.'', PStr ''The woods.'', PStr ''Two paths.''],
          choices_made := 2\<rparr>)
   \<and> length [PStr ''start'', PStr ''forest_entrance'', PStr ''start'']
       = length [PStr ''Two paths.'', PStr ''The woods.'', PStr ''Two paths.'']
   \<and> (2::int) = int (length [PStr ''start'', PStr ''forest_entrance'', PStr ''start'']) - 1"
  using history_invariant [OF init_session_demo run_demo] init_session_demo run_demo
  by simp

section \<open>A session started by an import\<close>

lemma restart_inv: "restart a s = Ok s' \<Longrightarrow> session_inv s'"
  by (auto simp: restart_def session_inv_def Let_def split: sum.splits)

lemma undo_offset:
  "1 \<le> length (progress s) \<Longrightarrow>
   1 \<le> length (progress (fst (undo s)))
   \<and> choices_made (fst (undo s)) - int (length (progress (fst (undo s))))
      = choices_made s - int (length (progress s))"
  by (auto simp: undo_def Let_def)

lemma press_choice_offset:
  "press_choice a s label = Some (Ok s') \<Longrightarrow>
   1 \<le> length (progress s')
   \<and> choices_made s' - int (length (progress s')) = choices_made s - int (length (progress s))"
  by (auto simp: press_choice_def on_choice_def Let_def
      split: sum.splits pyval.splits option.splits if_splits)

lemma run_offset:
  "1 \<le> length (progress s) \<Longrightarrow> run a s evs = Some s' \<Longrightarrow>
   choices_made s' - int (length (progress s')) = choices_made s - int (length (progress s))"
proof (induction a s evs rule: run.induct)
  case (1 a s)
  then show ?case by simp
next
  case (2 a s label es)
  from "2.prems"(2) obtain s1 where p: "press_choice a s label = Some (Ok s1)"
    and r: "run a s1 es = Some s'"
    by (auto split: option.splits outcome.splits)
  from press_choice_offset [OF p] "2.IH" p r show ?case by simp
next
  case (3 a s es)
  from undo_offset [OF "3.prems"(1)] "3.IH" "3.prems"(2) show ?case by simp
qed

lemma import_offset:
  "import_tree a s data = Ok (a', s') \<Longrightarrow>
   length (progress s') = 1 \<and> choices_made s' = choices_made s"
  by (auto simp: import_tree_def Let_def split: outcome.splits sum.splits)

lemma import_then_run:
  assumes "import_tree a s data = Ok (a', s')" and "run a' s' evs = Some s''"
  shows "choices_made s'' = int (length (progress s'')) - 1 + choices_made s"
  using import_offset [OF assms(1)] run_offset [OF _ assms(2)] by simp

text \<open>
  C6 asks \<^verbatim>\<open>choices_made\<close> to be one less than the length of \<^verbatim>\<open>progress\<close> after every
  sequence of choices and undos since the session started. The initialisation and the
  restart button set \<^verbatim>\<open>choices_made\<close> to 0; the import starts the session on the new root
  and leaves \<^verbatim>\<open>choices_made\<close> as it was. On the small graph, after the choice
  \<^verbatim>\<open>forest\<close> and the import of a well-formed definition, \<^verbatim>\<open>progress\<close> has one id and
  \<^verbatim>\<open>choices_made\<close> is 1; an undo changes nothing, and by the lemma above no sequence of
  choices and undos brings the two back together. A restart in the same state gives 0.
\<close>

theorem import_keeps_choices_made:
  "init_session demo_agent = Inr demo_session
   \<and> press_choice demo_agent demo_session ''forest'' = Some (Ok after_forest)
   \<and> import_tree demo_agent after_forest (PDict tree_start_last)
       = Ok (imported_agent, imported_session)
   \<and> length (progress imported_session) = 1
   \<and> choices_made imported_session = 1
   \<and> run imported_agent imported_session [Undo] = Some imported_session
   \<and> restart demo_agent after_forest = Ok demo_session
   \<and> choices_made demo_session = 0"
proof -
  have i: "init_session demo_agent = Inr demo_session"
    by (rule init_session_demo)
  have p: "press_choice demo_agent demo_session ''forest'' = Some (Ok after_forest)"
    by (simp add: press_choice_def on_choice_def demo_agent_def demo_session_def
        demo_node_def after_forest_def)
  have m: "import_tree demo_agent after_forest (PDict tree_start_last)
       = Ok (imported_agent, imported_session)"
    unfolding import_tree_def load_start_last
    by (simp add: demo_agent_def after_forest_def imported_agent_def imported_session_def)
  have u: "run imported_agent imported_session [Undo] = Some imported_session"
    by (simp add: undo_def imported_session_def)
  have r: "restart demo_agent after_forest = Ok demo_session"
    by (simp add: restart_def demo_agent_def demo_session_def demo_node_def after_forest_def)
  from i p m u r show ?thesis
    by (simp add: imported_session_def demo_session_def)
qed

section \<open>A dangling link\<close>

lemma press_choice_dangling:
  assumes "get_node a (current_node s) = Inr node" and "choices node = PDict d"
    and "map_of d (KStr label) = Some (PStr t)" and "map_of (story_nodes a) t = None"
  shows "press_choice a s label
     = Some (Raised KeyError (s\<lparr>progress := progress s @ [PStr t], current_node := PStr t\<rparr>))"
  using assms by (simp add: press_choice_def on_choice_def)

text \<open>
  C3 asks a choice whose target is not a node to fail and leave the session unchanged.
  On the small graph, the button \<^verbatim>\<open>village\<close> of the first node raises \<^verbatim>\<open>KeyError\<close>, but
  only after the handler has appended the missing id to \<^verbatim>\<open>progress\<close> and made it the
  current node; \<^verbatim>\<open>story_text\<close> and \<^verbatim>\<open>choices_made\<close> are as before, so the two lists
  no longer have the same length.
\<close>

theorem dangling_choice_partial_update:
  "map_of (story_nodes demo_agent) ''village_gate'' = None
   \<and> press_choice demo_agent demo_session ''village''
     = Some (Raised KeyError \<lparr>progress = [PStr ''start'', PStr ''village_gate''],
          current_node = PStr ''village_gate'',
          story_text = [PStr ''Two paths.''], achievements = {}, choices_made = 0\<rparr>)
   \<and> progress demo_session = [PStr ''start'']
   \<and> current_node demo_session = PStr ''start''"
proof -
  have n: "map_of (story_nodes demo_agent) ''village_gate'' = None"
    by (simp add: demo_agent_def)
  have "get_node demo_agent (current_node demo_session)
      = Inr (demo_node ''start'' ''Two paths.''
          [(KStr ''forest'', PStr ''forest_entrance''), (KStr ''village'', PStr ''village_gate'')])"
    by (simp add: demo_agent_def demo_session_def)
  from press_choice_dangling [OF this _ _ n, of _ "''village''"] n show ?thesis
    by (simp add: demo_node_def demo_session_def)
qed

section \<open>Achievement detection\<close>

lemma contains_after_first: "contains sep s \<longleftrightarrow> after_first sep s \<noteq> None"
  by (induction s) auto

lemma contains_length: "contains sep s \<Longrightarrow> length sep \<le> length s"
  by (induction s) (auto dest: prefix_length_le)

lemma after_first_decomp:
  "sep \<noteq> [] \<Longrightarrow> after_first sep s = Some post \<Longrightarrow>
   \<exists>pre. s = pre @ sep @ post \<and> \<not> contains sep (pre @ butlast sep)"
proof (induction s)
  case Nil
  then show ?case by simp
next
  case (Cons c cs)
  show ?case
  proof (cases "prefix sep (c # cs)")
    case True
    with Cons.prems have "c # cs = [] @ sep @ post"
      by (auto simp: prefix_def)
    moreover from Cons.prems(1) have "length (butlast sep) < length sep"
      by (cases sep rule: rev_cases) auto
    then have "\<not> contains sep ([] @ butlast sep)"
      using contains_length [of sep "butlast sep"] by auto
    ultimately show ?thesis by blast
  next
    case False
    with Cons.prems have "after_first sep cs = Some post" by simp
    from Cons.IH [OF Cons.prems(1) this] obtain pre
      where pre: "cs = pre @ sep @ post" "\<not> contains sep (pre @ butlast sep)"
      by blast
    from pre(1) have "prefix (c # pre @ butlast sep) (c # cs)"
      by (simp add: prefixeq_butlast prefix_prefix)
    with False have "\<not> prefix sep (c # pre @ butlast sep)"
      using prefix_order.trans by blast
    with pre(2) have "\<not> contains sep ((c # pre) @ butlast sep)"
      by simp
    moreover from pre(1) have "c # cs = (c # pre) @ sep @ post"
      by simp
    ultimately show ?thesis by blast
  qed
qed

lemma text_until_prefix: "prefix (text_until m t s) s"
  by (induction s) auto

lemma text_until_decomp:
  "\<exists>rest. s = text_until m t s @ rest \<and> (rest = [] \<or> prefix m rest \<or> prefix t rest)"
proof (induction s)
  case Nil
  then show ?case by simp
next
  case (Cons c cs)
  then show ?case by (cases "prefix m (c # cs) \<or> prefix t (c # cs)") auto
qed

lemma text_until_free:
  "t \<noteq> [] \<Longrightarrow> \<not> contains t (text_until m t s)"
proof (induction s)
  case Nil
  then show ?case by simp
next
  case (Cons c cs)
  show ?case
  proof (cases "prefix m (c # cs) \<or> prefix t (c # cs)")
    case True
    with Cons.prems show ?thesis by simp
  next
    case False
    have "prefix (c # text_until m t cs) (c # cs)"
      by (simp add: text_until_prefix)
    with False have "\<not> prefix t (c # text_until m t cs)"
      using prefix_order.trans by blast
    with False Cons show ?thesis by simp
  qed
qed

lemma text_until_commute: "text_until m t s = text_until t m s"
  by (induction s) auto

lemma split_from_nonempty: "split_from sep piece s \<noteq> []"
  by (induction sep piece s rule: split_from.induct) auto

lemma hd_split_from:
  "sep \<noteq> [] \<Longrightarrow> hd (split_from sep piece s) = piece @ text_until sep sep s"
  by (induction sep piece s rule: split_from.induct) auto

lemma split_from_first:
  "sep \<noteq> [] \<Longrightarrow> after_first sep s = Some post \<Longrightarrow>
   \<exists>p. split_from sep piece s = p # split_from sep [] post"
  by (induction sep piece s rule: split_from.induct) (auto split: if_splits)

lemma prefix_text_until:
  "prefix t s \<Longrightarrow> set t \<inter> set m = {} \<Longrightarrow> m \<noteq> [] \<Longrightarrow> prefix t (text_until m m s)"
proof (induction t arbitrary: s)
  case Nil
  then show ?case by simp
next
  case (Cons x t')
  from Cons.prems(1) obtain s' where s: "s = x # s'" and p: "prefix t' s'"
    by (cases s) auto
  from Cons.prems(2,3) have "hd m \<noteq> x"
    by (cases m) auto
  with Cons.prems(3) have "\<not> prefix m (x # s')"
    by (cases m) auto
  moreover from Cons.prems(2) have "set t' \<inter> set m = {}" by auto
  ultimately show ?case
    using Cons.IH [OF p _ Cons.prems(3)] s by simp
qed

lemma text_until_nested:
  assumes "set t \<inter> set m = {}" and "m \<noteq> []"
  shows "text_until t t (text_until m m s) = text_until m t s"
proof (induction s)
  case Nil
  then show ?case by simp
next
  case (Cons c cs)
  show ?case
  proof (cases "prefix m (c # cs)")
    case True
    then show ?thesis by simp
  next
    case nm: False
    show ?thesis
    proof (cases "prefix t (c # cs)")
      case True
      from prefix_text_until [OF True assms] have "prefix t (text_until m m (c # cs))" .
      with nm True show ?thesis by simp
    next
      case False
      have "prefix (c # text_until m m cs) (c # cs)"
        by (simp add: text_until_prefix)
      with False have "\<not> prefix t (c # text_until m m cs)"
        using prefix_order.trans by blast
      with nm False Cons show ?thesis by simp
    qed
  qed
qed

lemma marker_trophy_disjoint: "set trophy \<inter> set marker = {}"
  by (simp add: marker_def trophy_def)

lemma detect_achievement_eq:
  "detect_achievement text =
     (case after_first marker text of
        None \<Rightarrow> Inr None
      | Some post \<Rightarrow> Inr (Some (py_strip (text_until marker trophy post))))"
proof (cases "after_first marker text")
  case None
  then have "\<not> contains marker text"
    by (simp add: contains_after_first)
  with None show ?thesis
    by (simp add: detect_achievement_def)
next
  case (Some post)
  have m: "marker \<noteq> []" and t: "trophy \<noteq> []"
    by (simp_all add: marker_def trophy_def)
  from Some have c: "contains marker text"
    by (simp add: contains_after_first)
  from split_from_first [OF m Some, of "[]"] obtain p
    where sp: "split_from marker [] text = p # split_from marker [] post"
    by blast
  obtain q qs where q: "split_from marker [] post = q # qs"
    using split_from_nonempty [of marker "[]" post] by (cases "split_from marker [] post") auto
  from hd_split_from [OF m, of "[]" post] q have q': "q = text_until marker marker post"
    by simp
  have i1: "py_index (split_from marker [] text) 1 = Inr q"
    by (simp add: sp q py_index_def)
  obtain r rs where r: "split_from trophy [] q = r # rs"
    using split_from_nonempty [of trophy "[]" q] by (cases "split_from trophy [] q") auto
  from hd_split_from [OF t, of "[]" q] r have "r = text_until trophy trophy q"
    by simp
  with q' have r': "r = text_until marker trophy post"
    by (simp add: text_until_nested [OF marker_trophy_disjoint m])
  have i0: "py_index (split_from trophy [] q) 0 = Inr r"
    by (simp add: r py_index_def)
  from c m t i1 i0 r' Some show ?thesis
    by (simp add: detect_achievement_def py_split_def)
qed

lemma detect_example: "detect_achievement spec_example = Inr (Some ''Keeper of the Light'')"
  by code_simp

lemma detect_no_marker: "detect_achievement ''no marker here'' = Inr None"
  by code_simp

text \<open>
  C8, as the code has it. On a text without the marker the detection returns nothing. On
  a text with the marker it returns, stripped of surrounding whitespace, the piece \<open>name\<close>
  that starts right after the first occurrence of the marker and ends where the next
  marker or the next trophy begins, whichever comes first, or at the end of the text when
  neither follows; the piece may be empty, and the detection never raises. On the example
  text of the specification it returns \<^verbatim>\<open>Keeper of the Light\<close>, and nothing on
  \<^verbatim>\<open>no marker here\<close>.
\<close>

theorem detect_achievement_spec:
  "(\<not> contains marker text \<longrightarrow> detect_achievement text = Inr None)
   \<and> (contains marker text \<longrightarrow>
        (\<exists>pre name rest. text = pre @ marker @ name @ rest
           \<and> \<not> contains marker (pre @ butlast marker)
           \<and> after_first marker text = Some (name @ rest)
           \<and> name = text_until marker trophy (name @ rest)
           \<and> (rest = [] \<or> prefix marker rest \<or> prefix trophy rest)
           \<and> \<not> contains marker name \<and> \<not> contains trophy name
           \<and> detect_achievement text = Inr (Some (py_strip name))))
   \<and> detect_achievement spec_example = Inr (Some ''Keeper of the Light'')
   \<and> detect_achievement ''no marker here'' = Inr None"
proof (intro conjI impI)
  assume "\<not> contains marker text"
  then show "detect_achievement text = Inr None"
    by (simp add: detect_achievement_def)
next
  assume "contains marker text"
  then obtain post where post: "after_first marker text = Some post"
    by (auto simp: contains_after_first)
  have m: "marker \<noteq> []" and t: "trophy \<noteq> []"
    by (simp_all add: marker_def trophy_def)
  from after_first_decomp [OF m post] obtain pre
    where pre: "text = pre @ marker @ post" and fst: "\<not> contains marker (pre @ butlast marker)"
    by blast
  define name where "name = text_until marker trophy post"
  from text_until_decomp [of post marker trophy] obtain rest
    where rest: "post = name @ rest" "rest = [] \<or> prefix marker rest \<or> prefix trophy rest"
    by (auto simp: name_def)
  have f1: "\<not> contains trophy name"
    unfolding name_def by (rule text_until_free [OF t])
  have f2: "\<not> contains marker name"
    unfolding name_def using text_until_free [OF m, of trophy post]
    by (simp add: text_until_commute)
  have d: "detect_achievement text = Inr (Some (py_strip name))"
    by (simp add: detect_achievement_eq post name_def)
  from post rest(1) have a: "after_first marker text = Some (name @ rest)"
    by simp
  have b: "name = text_until marker trophy (name @ rest)"
    by (metis name_def rest(1))
  from pre rest(1) have c: "text = pre @ marker @ name @ rest"
    by simp
  from a b c rest(2) f1 f2 d fst
  show "\<exists>pre name rest. text = pre @ marker @ name @ rest
           \<and> \<not> contains marker (pre @ butlast marker)
           \<and> after_first marker text = Some (name @ rest)
           \<and> name = text_until marker trophy (name @ rest)
           \<and> (rest = [] \<or> prefix marker rest \<or> prefix trophy rest)
           \<and> \<not> contains marker name \<and> \<not> contains trophy name
           \<and> detect_achievement text = Inr (Some (py_strip name))"
    by blast
qed (rule detect_example detect_no_marker)+

theorem detect_achievement_spec_witness:
  "contains marker spec_example
   \<and> (\<exists>pre name rest. spec_example = pre @ marker @ name @ rest
         \<and> (rest = [] \<or> prefix marker rest \<or> prefix trophy rest)
         \<and> detect_achievement spec_example = Inr (Some (py_strip name)))
   \<and> \<not> contains marker ''no marker here''
   \<and> detect_achievement ''no marker here'' = Inr None"
proof -
  have c: "contains marker spec_example"
    by code_simp
  have n: "\<not> contains marker ''no marker here''"
    by code_simp
  from detect_achievement_spec [of spec_example] c
  have "\<exists>pre name rest. spec_example = pre @ marker @ name @ rest
         \<and> (rest = [] \<or> prefix marker rest \<or> prefix trophy rest)
         \<and> detect_achievement spec_example = Inr (Some (py_strip name))"
    by blast
  moreover from detect_achievement_spec [of "''no marker here''"] n
  have "detect_achievement ''no marker here'' = Inr None"
    by blast
  ultimately show ?thesis using c n by blast
qed

text \<open>
  C8 as stated takes the piece between the marker and the following trophy. With a second
  marker before the trophy the detection stops at that marker and returns \<^verbatim>\<open>First\<close>,
  not the text up to the trophy; with no trophy at all it returns the rest of the text.
\<close>

theorem detect_achievement_counterexample:
  "detect_achievement (''Achievement Unlocked: First Achievement Unlocked: Second '' @ trophy)
     = Inr (Some ''First'')
   \<and> py_strip '' First Achievement Unlocked: Second '' = ''First Achievement Unlocked: Second''
   \<and> detect_achievement ''Achievement Unlocked: Solo'' = Inr (Some ''Solo'')
   \<and> \<not> contains trophy ''Achievement Unlocked: Solo''"
  by code_simp

end
